theory Spec2Isabelle
  imports Main
begin

section \<open>Iterators\<close>

text \<open>
  The library \<^verbatim>\<open>src/iterating.ts\<close> works on objects of the TypeScript interface
  \<^verbatim>\<open>Iterator<T>\<close>: one method \<^verbatim>\<open>next()\<close> that mutates the object and returns an
  \<^verbatim>\<open>IteratorResult<T>\<close>. An iterator object is modelled by its current state; pulling
  returns the outcome of the call together with the state the object is left in.
  A call of \<^verbatim>\<open>next()\<close> can
  \<^item> not return at all (\<open>None\<close>),
  \<^item> throw (\<open>Inl e\<close>), or
  \<^item> return a result (\<open>Inr r\<close>).
  The value carried by a result with \<^verbatim>\<open>done: true\<close> is never read by the library and is
  left out. Iterator objects are values here, so two iterators handed to one combinator
  are distinct objects. Numbers are mathematical integers. Caller-supplied functors and
  predicates are total functions whose only effect is the use of the callback they are
  given.
\<close>

datatype 'a IteratorResult =
    IteratorYieldResult (value_of: 'a)
  | done_of: IteratorReturnResult

datatype error = Error string

codatatype 'a Iterator =
  Iterator (next_of: "((error + 'a IteratorResult) \<times> 'a Iterator) option")

text \<open>\<^verbatim>\<open>Array.prototype.values()\<close>: the iterator of an array, here of the elements that are left.\<close>

primcorec array_values :: "'a list \<Rightarrow> 'a Iterator" where
  "array_values xs = Iterator (Some (case xs of
       [] \<Rightarrow> (Inr IteratorReturnResult, array_values [])
     | x # xs' \<Rightarrow> (Inr (IteratorYieldResult x), array_values xs')))"

text \<open>
  A generator function (\<^verbatim>\<open>function*\<close>) gives a generator object: suspended in its body,
  or completed. The body runs from one suspension point to the next \<^verbatim>\<open>yield\<close>, to its
  end, or to a \<^verbatim>\<open>throw\<close>; a completed generator answers every pull with \<^verbatim>\<open>done: true\<close>.
\<close>

datatype 's GeneratorState = Suspended 's | Completed

datatype ('a, 's) GeneratorStep = Yields 'a 's | Returns | Throws error

fun generator_next ::
  "('s \<Rightarrow> ('a, 's) GeneratorStep option) \<Rightarrow> 's GeneratorState \<Rightarrow>
   ((error + 'a IteratorResult) \<times> 's GeneratorState) option" where
  "generator_next body Completed = Some (Inr IteratorReturnResult, Completed)"
| "generator_next body (Suspended s) = (case body s of
       None \<Rightarrow> None
     | Some (Yields v s') \<Rightarrow> Some (Inr (IteratorYieldResult v), Suspended s')
     | Some Returns \<Rightarrow> Some (Inr IteratorReturnResult, Completed)
     | Some (Throws e) \<Rightarrow> Some (Inl e, Completed))"

primcorec generator ::
  "('s \<Rightarrow> ('a, 's) GeneratorStep option) \<Rightarrow> 's GeneratorState \<Rightarrow> 'a Iterator" where
  "generator body st =
     Iterator (map_option (map_prod id (generator body)) (generator_next body st))"

text \<open>Calling \<^verbatim>\<open>next()\<close> \<open>n\<close> times in a row: the results, and the iterator afterwards.\<close>

fun pulls :: "nat \<Rightarrow> 'a Iterator \<Rightarrow> (error + 'a IteratorResult list \<times> 'a Iterator) option" where
  "pulls 0 iterator = Some (Inr ([], iterator))"
| "pulls (Suc n) iterator = (case next_of iterator of
       None \<Rightarrow> None
     | Some (Inl e, iterator') \<Rightarrow> Some (Inl e)
     | Some (Inr r, iterator') \<Rightarrow> (case pulls n iterator' of
           None \<Rightarrow> None
         | Some (Inl e) \<Rightarrow> Some (Inl e)
         | Some (Inr (rs, iterator'')) \<Rightarrow> Some (Inr (r # rs, iterator''))))"

section \<open>Eager consumers\<close>

text \<open>
  \<^verbatim>\<open>wrapWithIterable\<close> wraps the iterator in an object whose \<^verbatim>\<open>next()\<close> forwards to it and
  that has no \<^verbatim>\<open>return\<close> method, so a \<^verbatim>\<open>for ... of\<close> over the wrapper pulls the iterator
  itself and leaving the loop does nothing to it.
\<close>

definition wrapWithIterable :: "'a Iterator \<Rightarrow> 'a Iterator" where
  "wrapWithIterable iterator = iterator"

text \<open>\<^verbatim>\<open>spread\<close>: \<^verbatim>\<open>[...wrapWithIterable(iterator)]\<close>, the array and the drained iterator.\<close>

partial_function (option) spread_loop ::
  "'a Iterator \<Rightarrow> 'a list \<Rightarrow> (error + 'a list \<times> 'a Iterator) option" where
  "spread_loop iterator array = (case next_of iterator of
       None \<Rightarrow> None
     | Some (Inl e, iterator') \<Rightarrow> Some (Inl e)
     | Some (Inr IteratorReturnResult, iterator') \<Rightarrow> Some (Inr (array, iterator'))
     | Some (Inr (IteratorYieldResult element), iterator') \<Rightarrow>
         spread_loop iterator' (array @ [element]))"

definition spread :: "'a Iterator \<Rightarrow> (error + 'a list \<times> 'a Iterator) option" where
  "spread iterator = spread_loop (wrapWithIterable iterator) []"

text \<open>
  \<^verbatim>\<open>applyOnEachOf\<close>. The functor works on the variables it captures and on the flag
  \<^verbatim>\<open>shouldBreakAfterIteration\<close>, which it reaches only through the callback it is given.
  The flag is false whenever the functor is called, because the loop is left as soon as
  it is true. The result is the captured variables and the iterator after the loop.
\<close>

type_synonym ('t, 's) applyFunctor = "'t \<Rightarrow> (bool \<Rightarrow> bool) \<Rightarrow> 's \<times> bool \<Rightarrow> 's \<times> bool"

definition breakAfterIteration :: "bool \<Rightarrow> bool" where
  "breakAfterIteration shouldBreakAfterIteration = True"

partial_function (option) applyOnEachOf_loop ::
  "'t Iterator \<Rightarrow> ('t, 's) applyFunctor \<Rightarrow> 's \<Rightarrow> (error + 's \<times> 't Iterator) option" where
  "applyOnEachOf_loop iterator functor captured = (case next_of iterator of
       None \<Rightarrow> None
     | Some (Inl e, iterator') \<Rightarrow> Some (Inl e)
     | Some (Inr IteratorReturnResult, iterator') \<Rightarrow> Some (Inr (captured, iterator'))
     | Some (Inr (IteratorYieldResult element), iterator') \<Rightarrow>
         (case functor element breakAfterIteration (captured, False) of
            (captured', shouldBreakAfterIteration) \<Rightarrow>
              if shouldBreakAfterIteration then Some (Inr (captured', iterator'))
              else applyOnEachOf_loop iterator' functor captured'))"

definition applyOnEachOf ::
  "'t Iterator \<Rightarrow> ('t, 's) applyFunctor \<Rightarrow> 's \<Rightarrow> (error + 's \<times> 't Iterator) option" where
  "applyOnEachOf iterator functor captured =
     applyOnEachOf_loop (wrapWithIterable iterator) functor captured"

text \<open>\<^verbatim>\<open>reduce\<close>: the functor handed to \<^verbatim>\<open>applyOnEachOf\<close> captures \<^verbatim>\<open>accumulator\<close>.\<close>

type_synonym ('t, 'u) ReduceFunctor = "'u \<Rightarrow> 't \<Rightarrow> (bool \<Rightarrow> bool) \<Rightarrow> bool \<Rightarrow> 'u \<times> bool"

definition reduce ::
  "'t Iterator \<Rightarrow> ('t, 'u) ReduceFunctor \<Rightarrow> 'u \<Rightarrow> (error + 'u \<times> 't Iterator) option" where
  "reduce iterator functor initialValue =
     applyOnEachOf iterator
       (\<lambda>element breakAfterIteration (accumulator, shouldBreakAfterIteration).
          functor accumulator element breakAfterIteration shouldBreakAfterIteration)
       initialValue"

definition checkAllFulfill ::
  "'t Iterator \<Rightarrow> ('t \<Rightarrow> bool) \<Rightarrow> (error + bool \<times> 't Iterator) option" where
  "checkAllFulfill iterator predicate =
     reduce iterator
       (\<lambda>accumulator element breakAfterIteration shouldBreakAfterIteration.
          let elementFulfillsPredicate = predicate element
          in (accumulator \<and> elementFulfillsPredicate,
              if \<not> elementFulfillsPredicate
              then breakAfterIteration shouldBreakAfterIteration
              else shouldBreakAfterIteration))
       True"

definition checkAnyFulfills ::
  "'t Iterator \<Rightarrow> ('t \<Rightarrow> bool) \<Rightarrow> (error + bool \<times> 't Iterator) option" where
  "checkAnyFulfills iterator predicate =
     (let negatedPredicate = (\<lambda>element. \<not> predicate element)
      in case checkAllFulfill iterator negatedPredicate of
           None \<Rightarrow> None
         | Some (Inl e) \<Rightarrow> Some (Inl e)
         | Some (Inr (allFulfill, iterator')) \<Rightarrow> Some (Inr (\<not> allFulfill, iterator')))"

section \<open>Lazy combinators\<close>

text \<open>\<^verbatim>\<open>zip\<close>. \<^verbatim>\<open>iterators.map(i => i.next())\<close> pulls the iterators from left to right.\<close>

fun pull_all ::
  "'a Iterator list \<Rightarrow> (error + 'a IteratorResult list \<times> 'a Iterator list) option" where
  "pull_all [] = Some (Inr ([], []))"
| "pull_all (i # iterators) = (case next_of i of
       None \<Rightarrow> None
     | Some (Inl e, i') \<Rightarrow> Some (Inl e)
     | Some (Inr r, i') \<Rightarrow> (case pull_all iterators of
           None \<Rightarrow> None
         | Some (Inl e) \<Rightarrow> Some (Inl e)
         | Some (Inr (results, iterators')) \<Rightarrow> Some (Inr (r # results, i' # iterators'))))"

definition resultHasNext :: "'a IteratorResult \<Rightarrow> bool" where
  "resultHasNext result = (\<not> done_of result)"

definition zip_body :: "'a Iterator list \<Rightarrow> ('a list, 'a Iterator list) GeneratorStep option" where
  "zip_body iterators = (case pull_all iterators of
       None \<Rightarrow> None
     | Some (Inl e) \<Rightarrow> Some (Throws e)
     | Some (Inr (results, iterators')) \<Rightarrow>
        (case checkAnyFulfills (array_values results) resultHasNext of
           None \<Rightarrow> None
         | Some (Inl e) \<Rightarrow> Some (Throws e)
         | Some (Inr (someHaveNext, _)) \<Rightarrow>
            (case checkAllFulfill (array_values results) resultHasNext of
               None \<Rightarrow> None
             | Some (Inl e) \<Rightarrow> Some (Throws e)
             | Some (Inr (allHaveNext, _)) \<Rightarrow>
                 if someHaveNext \<and> \<not> allHaveNext
                 then Some (Throws (Error ''some iterators are consumed before others''))
                 else if allHaveNext
                 then Some (Yields (map value_of results) iterators')
                 else Some Returns)))"

definition zip_it :: "'a Iterator list \<Rightarrow> 'a list Iterator" where
  "zip_it iterators = generator zip_body (Suspended iterators)"

text \<open>\<^verbatim>\<open>PeekableIterator\<close>: the class, its constructor and its two methods.\<close>

record 'a PeekableIterator =
  p_iterator :: "'a Iterator"
  p_nextResult :: "'a IteratorResult"

definition PeekableIterator_new :: "'a Iterator \<Rightarrow> (error + 'a PeekableIterator) option" where
  "PeekableIterator_new iterator = (case next_of iterator of
       None \<Rightarrow> None
     | Some (Inl e, iterator') \<Rightarrow> Some (Inl e)
     | Some (Inr r, iterator') \<Rightarrow> Some (Inr \<lparr>p_iterator = iterator', p_nextResult = r\<rparr>))"

definition PeekableIterator_next ::
  "'a PeekableIterator \<Rightarrow> ((error + 'a IteratorResult) \<times> 'a PeekableIterator) option" where
  "PeekableIterator_next this =
     (let currentResult = p_nextResult this
      in case next_of (p_iterator this) of
           None \<Rightarrow> None
         | Some (Inl e, iterator') \<Rightarrow> Some (Inl e, this\<lparr>p_iterator := iterator'\<rparr>)
         | Some (Inr r, iterator') \<Rightarrow>
             Some (Inr currentResult, this\<lparr>p_iterator := iterator', p_nextResult := r\<rparr>))"

definition peek :: "'a PeekableIterator \<Rightarrow> 'a IteratorResult \<times> 'a PeekableIterator" where
  "peek this = (p_nextResult this, this)"

text \<open>The class implements \<^verbatim>\<open>IterableIterator<T>\<close>: seen through its \<^verbatim>\<open>next()\<close> alone.\<close>

primcorec PeekableIterator_iterator :: "'a PeekableIterator \<Rightarrow> 'a Iterator" where
  "PeekableIterator_iterator this =
     Iterator (map_option (map_prod id PeekableIterator_iterator) (PeekableIterator_next this))"

text \<open>
  \<^verbatim>\<open>range\<close>. The generator is suspended either with the loop variable \<open>i\<close> about to be
  tested (at the start, and at \<^verbatim>\<open>yield i\<close> with the increment still to come, which is
  folded into the state), or at \<^verbatim>\<open>yield stop\<close>.
\<close>

datatype range_state = RangeLoop int | RangeStopYielded

definition continuePredicate :: "bool \<Rightarrow> int \<Rightarrow> int \<Rightarrow> bool" where
  "continuePredicate isIncreasing i stop = (if isIncreasing then i < stop else i > stop)"

fun range_body :: "int \<Rightarrow> int \<Rightarrow> bool \<Rightarrow> range_state \<Rightarrow> (int, range_state) GeneratorStep option" where
  "range_body stop stepSize stopIncluded (RangeLoop i) =
     (let isIncreasing = stepSize > 0
      in if continuePredicate isIncreasing i stop
         then Some (Yields i (RangeLoop (i + stepSize)))
         else if stopIncluded then Some (Yields stop RangeStopYielded)
         else Some Returns)"
| "range_body stop stepSize stopIncluded RangeStopYielded = Some Returns"

definition range_it :: "int \<Rightarrow> int \<Rightarrow> int \<Rightarrow> bool \<Rightarrow> int Iterator" where
  "range_it start stop stepSize stopIncluded =
     generator (range_body stop stepSize stopIncluded) (Suspended (RangeLoop start))"

text \<open>\<^verbatim>\<open>repeat\<close>: a \<^verbatim>\<open>for ... of\<close> over the range, yielding \<^verbatim>\<open>value\<close> for each of its elements.\<close>

definition repeat_body :: "'a \<Rightarrow> int Iterator \<Rightarrow> ('a, int Iterator) GeneratorStep option" where
  "repeat_body v rangeIterator = (case next_of rangeIterator of
       None \<Rightarrow> None
     | Some (Inl e, rangeIterator') \<Rightarrow> Some (Throws e)
     | Some (Inr IteratorReturnResult, rangeIterator') \<Rightarrow> Some Returns
     | Some (Inr (IteratorYieldResult _), rangeIterator') \<Rightarrow> Some (Yields v rangeIterator'))"

definition repeat :: "'a \<Rightarrow> int \<Rightarrow> 'a Iterator" where
  "repeat v times' = generator (repeat_body v) (Suspended (range_it 1 times' 1 True))"

text \<open>\<^verbatim>\<open>map\<close>.\<close>

definition map_body :: "('t \<Rightarrow> 'u) \<Rightarrow> 't Iterator \<Rightarrow> ('u, 't Iterator) GeneratorStep option" where
  "map_body functor iterator = (case next_of (wrapWithIterable iterator) of
       None \<Rightarrow> None
     | Some (Inl e, iterator') \<Rightarrow> Some (Throws e)
     | Some (Inr IteratorReturnResult, iterator') \<Rightarrow> Some Returns
     | Some (Inr (IteratorYieldResult element), iterator') \<Rightarrow>
         Some (Yields (functor element) iterator'))"

definition map_it :: "'t Iterator \<Rightarrow> ('t \<Rightarrow> 'u) \<Rightarrow> 'u Iterator" where
  "map_it iterator functor = generator (map_body functor) (Suspended iterator)"

text \<open>
  \<^verbatim>\<open>reverse\<close>. The first pull drains the source into \<^verbatim>\<open>sequence\<close>; every pull then tests
  \<^verbatim>\<open>sequence.length > 0\<close> and pops the last element.
\<close>

datatype 'a reverse_state = ReverseStart "'a Iterator" | ReverseLoop "'a list"

definition reverse_loop :: "'a list \<Rightarrow> ('a, 'a reverse_state) GeneratorStep option" where
  "reverse_loop sequence =
     (if length sequence > 0
      then Some (Yields (last sequence) (ReverseLoop (butlast sequence)))
      else Some Returns)"

fun reverse_body :: "'a reverse_state \<Rightarrow> ('a, 'a reverse_state) GeneratorStep option" where
  "reverse_body (ReverseStart iterator) = (case spread iterator of
       None \<Rightarrow> None
     | Some (Inl e) \<Rightarrow> Some (Throws e)
     | Some (Inr (sequence, _)) \<Rightarrow> reverse_loop sequence)"
| "reverse_body (ReverseLoop sequence) = reverse_loop sequence"

definition reverse :: "'a Iterator \<Rightarrow> 'a Iterator" where
  "reverse iterator = generator reverse_body (Suspended (ReverseStart iterator))"

text \<open>\<^verbatim>\<open>smear\<close> and \<^verbatim>\<open>sumCumulatively\<close>. The generator's state is \<^verbatim>\<open>valueToGiveOn\<close> and the source.\<close>

record ('u, 'v) SmearResult =
  giveOn :: 'u
  yield :: 'v

definition smear_body ::
  "('u \<Rightarrow> 't \<Rightarrow> ('u, 'v) SmearResult) \<Rightarrow> 'u \<times> 't Iterator \<Rightarrow>
   ('v, 'u \<times> 't Iterator) GeneratorStep option" where
  "smear_body functor st = (case st of (valueToGiveOn, iterator) \<Rightarrow>
     (case next_of (wrapWithIterable iterator) of
        None \<Rightarrow> None
      | Some (Inl e, iterator') \<Rightarrow> Some (Throws e)
      | Some (Inr IteratorReturnResult, iterator') \<Rightarrow> Some Returns
      | Some (Inr (IteratorYieldResult element), iterator') \<Rightarrow>
          (let result = functor valueToGiveOn element;
               valueToYield = yield result
           in Some (Yields valueToYield (giveOn result, iterator')))))"

definition smear ::
  "'t Iterator \<Rightarrow> ('u \<Rightarrow> 't \<Rightarrow> ('u, 'v) SmearResult) \<Rightarrow> 'u \<Rightarrow> 'v Iterator" where
  "smear iterator functor initialValue =
     generator (smear_body functor) (Suspended (initialValue, iterator))"

text \<open>The local \<^verbatim>\<open>functor\<close> of \<^verbatim>\<open>sumCumulatively\<close>.\<close>

definition sumCumulatively_functor :: "int \<Rightarrow> int \<Rightarrow> (int, int) SmearResult" where
  "sumCumulatively_functor givenOn element =
     (let cumulativeSum = givenOn + element
      in \<lparr>giveOn = cumulativeSum, yield = cumulativeSum\<rparr>)"

definition sumCumulatively :: "int Iterator \<Rightarrow> int Iterator" where
  "sumCumulatively iterator = smear iterator sumCumulatively_functor 0"

section \<open>Observers\<close>

text \<open>
  \<open>drained it xs it'\<close>: pulling \<open>it\<close> gives the values \<open>xs\<close>, one per pull, then
  \<^verbatim>\<open>done: true\<close>, and leaves the iterator as \<open>it'\<close>.
\<close>

definition drained :: "'a Iterator \<Rightarrow> 'a list \<Rightarrow> 'a Iterator \<Rightarrow> bool" where
  "drained it xs it' \<longleftrightarrow>
     pulls (Suc (length xs)) it = Some (Inr (map IteratorYieldResult xs @ [IteratorReturnResult], it'))"

section \<open>Pulling arrays and generators\<close>


lemma next_of_array_values_Nil [simp]:
  "next_of (array_values []) = Some (Inr IteratorReturnResult, array_values [])"
  by simp

lemma next_of_array_values_Cons [simp]:
  "next_of (array_values (x # xs)) = Some (Inr (IteratorYieldResult x), array_values xs)"
  by simp

lemma next_of_generator_Completed [simp]:
  "next_of (generator body Completed) = Some (Inr IteratorReturnResult, generator body Completed)"
  by simp

lemma pulls_Suc_Inr:
  "pulls (Suc n) it = Some (Inr (rs, it')) \<longleftrightarrow>
   (\<exists>r it1 rs'. next_of it = Some (Inr r, it1) \<and> pulls n it1 = Some (Inr (rs', it')) \<and> rs = r # rs')"
  by (auto split: option.splits sum.splits prod.splits)

lemma drained_Nil: "drained it [] it' \<longleftrightarrow> next_of it = Some (Inr IteratorReturnResult, it')"
  by (auto simp: drained_def split: option.splits sum.splits prod.splits)

lemma drained_Cons:
  "drained it (x # xs) it' \<longleftrightarrow>
     (\<exists>it1. next_of it = Some (Inr (IteratorYieldResult x), it1) \<and> drained it1 xs it')"
  unfolding drained_def length_Cons pulls_Suc_Inr[of "Suc (length xs)"] by auto

lemma spread_loop_drained:
  "drained it xs it' \<Longrightarrow> spread_loop it acc = Some (Inr (acc @ xs, it'))"
proof (induction xs arbitrary: it acc)
  case Nil
  then show ?case by (subst spread_loop.simps) (simp add: drained_Nil)
next
  case (Cons x xs)
  then obtain it1 where *: "next_of it = Some (Inr (IteratorYieldResult x), it1)" "drained it1 xs it'"
    by (auto simp: drained_Cons)
  show ?case using Cons.IH[OF *(2), of "acc @ [x]"] *(1)
    by (subst spread_loop.simps) simp
qed

lemma spread_loop_terminates_aux:
  assumes "spread_loop it acc = Some y"
  shows "case y of Inl e \<Rightarrow> True | Inr (zs, it') \<Rightarrow> \<exists>xs. zs = acc @ xs \<and> drained it xs it'"
proof (rule spread_loop.raw_induct[OF _ assms], goal_cases)
  case (1 f iterator acc y)
  show ?case
  proof (cases "next_of iterator")
    case None
    with 1(2) show ?thesis by simp
  next
    case (Some a)
    obtain c it1 where a: "a = (c, it1)" by (cases a)
    show ?thesis
    proof (cases c)
      case (Inl e)
      with 1(2) Some a show ?thesis by auto
    next
      case (Inr r)
      show ?thesis
      proof (cases r)
        case (IteratorYieldResult v)
        with 1(2) Some a Inr have "f it1 (acc @ [v]) = Some y" by simp
        from 1(1)[OF this] Some a Inr IteratorYieldResult show ?thesis
          by (cases y) (auto simp: drained_Cons)
      next
        case IteratorReturnResult
        with 1(2) Some a Inr show ?thesis
          by (auto simp: drained_Nil)
      qed
    qed
  qed
qed

lemma spread_loop_terminates:
  "spread_loop it acc = Some (Inr (zs, it')) \<Longrightarrow> \<exists>xs. zs = acc @ xs \<and> drained it xs it'"
  using spread_loop_terminates_aux[of it acc "Inr (zs, it')"] by simp

lemma spread_iff_drained: "spread it = Some (Inr (xs, it')) \<longleftrightarrow> drained it xs it'"
  using spread_loop_terminates[of it "[]" xs it'] spread_loop_drained[of it xs it' "[]"]
  by (auto simp: spread_def wrapWithIterable_def)

lemma drained_array_values: "drained (array_values xs) xs (array_values [])"
  by (induction xs) (auto simp: drained_Nil drained_Cons)

lemma spread_array_values: "spread (array_values xs) = Some (Inr (xs, array_values []))"
  by (simp add: spread_iff_drained drained_array_values)

lemma next_of_generator_Suspended:
  "next_of (generator body (Suspended s)) = (case body s of
       None \<Rightarrow> None
     | Some (Yields v s') \<Rightarrow> Some (Inr (IteratorYieldResult v), generator body (Suspended s'))
     | Some Returns \<Rightarrow> Some (Inr IteratorReturnResult, generator body Completed)
     | Some (Throws e) \<Rightarrow> Some (Inl e, generator body Completed))"
  by (simp split: option.splits GeneratorStep.splits)

lemma drained_cong: "next_of it = next_of it2 \<Longrightarrow> drained it xs it' = drained it2 xs it'"
  by (cases xs) (simp_all add: drained_Nil drained_Cons)

lemma drained_map_it:
  "drained S xs S' \<Longrightarrow>
   drained (generator (map_body f) (Suspended S)) (map f xs) (generator (map_body f) Completed)"
proof (induction xs arbitrary: S)
  case Nil
  then show ?case
    by (simp add: drained_Nil next_of_generator_Suspended map_body_def wrapWithIterable_def)
next
  case (Cons x xs)
  then obtain S1 where *: "next_of S = Some (Inr (IteratorYieldResult x), S1)" "drained S1 xs S'"
    by (auto simp: drained_Cons)
  from Cons.IH[OF *(2)] *(1) show ?case
    by (simp add: drained_Cons next_of_generator_Suspended map_body_def wrapWithIterable_def)
qed

lemma drained_reverse_loop:
  "drained (generator reverse_body (Suspended (ReverseLoop xs))) (rev xs)
     (generator reverse_body Completed)"
proof (induction xs rule: rev_induct)
  case Nil
  show ?case by (simp add: drained_Nil next_of_generator_Suspended reverse_loop_def)
next
  case (snoc x xs)
  then show ?case
    by (simp add: drained_Cons next_of_generator_Suspended reverse_loop_def)
qed

lemma drained_reverse:
  assumes "drained it xs it'"
  shows "drained (reverse it) (rev xs) (generator reverse_body Completed)"
proof -
  have "spread it = Some (Inr (xs, it'))"
    using assms by (simp add: spread_iff_drained)
  then have "next_of (reverse it) = next_of (generator reverse_body (Suspended (ReverseLoop xs)))"
    by (simp add: reverse_def)
  from drained_cong[OF this] show ?thesis
    using drained_reverse_loop[of xs] by blast
qed


section \<open>Quantifiers, zip, peeking, repeat and running sums\<close>


lemma checkAllFulfill_step:
  "checkAllFulfill it p = (case next_of it of
       None \<Rightarrow> None
     | Some (Inl e, it') \<Rightarrow> Some (Inl e)
     | Some (Inr IteratorReturnResult, it') \<Rightarrow> Some (Inr (True, it'))
     | Some (Inr (IteratorYieldResult x), it') \<Rightarrow>
         if p x then checkAllFulfill it' p else Some (Inr (False, it')))"
  unfolding checkAllFulfill_def reduce_def applyOnEachOf_def wrapWithIterable_def
  by (subst applyOnEachOf_loop.simps)
     (simp add: breakAfterIteration_def split: option.splits sum.splits prod.splits IteratorResult.splits)

lemma checkAllFulfill_all:
  "drained it xs it' \<Longrightarrow> \<forall>x\<in>set xs. p x \<Longrightarrow> checkAllFulfill it p = Some (Inr (True, it'))"
proof (induction xs arbitrary: it)
  case Nil
  then show ?case by (subst checkAllFulfill_step) (simp add: drained_Nil)
next
  case (Cons x xs)
  then obtain it1 where *: "next_of it = Some (Inr (IteratorYieldResult x), it1)" "drained it1 xs it'"
    by (auto simp: drained_Cons)
  from Cons.IH[OF *(2)] Cons.prems(2) *(1) show ?case
    by (subst checkAllFulfill_step) simp
qed

lemma checkAllFulfill_first_failure:
  "pulls (Suc (length ys)) it = Some (Inr (map IteratorYieldResult (ys @ [y]), it1)) \<Longrightarrow>
   \<forall>x\<in>set ys. p x \<Longrightarrow> \<not> p y \<Longrightarrow> checkAllFulfill it p = Some (Inr (False, it1))"
proof (induction ys arbitrary: it)
  case Nil
  then have "next_of it = Some (Inr (IteratorYieldResult y), it1)"
    by (auto simp: pulls_Suc_Inr simp del: pulls.simps(2))
  with Nil.prems(3) show ?case by (subst checkAllFulfill_step) simp
next
  case (Cons x ys)
  from Cons.prems(1) obtain it2 where
    *: "next_of it = Some (Inr (IteratorYieldResult x), it2)"
       "pulls (Suc (length ys)) it2 = Some (Inr (map IteratorYieldResult (ys @ [y]), it1))"
    unfolding length_Cons pulls_Suc_Inr[of "Suc (length ys)"] by auto
  from Cons.IH[OF *(2)] Cons.prems(2,3) *(1) show ?case
    by (subst checkAllFulfill_step) simp
qed

lemma checkAllFulfill_drained:
  "drained it xs it' \<Longrightarrow> \<exists>it''. checkAllFulfill it p = Some (Inr (\<forall>x\<in>set xs. p x, it''))"
proof (induction xs arbitrary: it)
  case Nil
  then show ?case by (subst checkAllFulfill_step) (simp add: drained_Nil)
next
  case (Cons x xs)
  then obtain it1 where *: "next_of it = Some (Inr (IteratorYieldResult x), it1)" "drained it1 xs it'"
    by (auto simp: drained_Cons)
  from Cons.IH[OF *(2)] *(1) show ?case
    by (subst checkAllFulfill_step) auto
qed

lemma pulls_array_values:
  "n \<le> length xs \<Longrightarrow>
   pulls n (array_values xs) = Some (Inr (map IteratorYieldResult (take n xs), array_values (drop n xs)))"
proof (induction n arbitrary: xs)
  case 0
  then show ?case by simp
next
  case (Suc n)
  then show ?case by (cases xs) simp_all
qed


lemma checkAnyFulfills_drained:
  assumes "drained it xs it'"
  shows "\<exists>it''. checkAnyFulfills it p = Some (Inr (\<exists>x\<in>set xs. p x, it''))"
proof -
  obtain it'' where "checkAllFulfill it (\<lambda>element. \<not> p element)
      = Some (Inr (\<forall>x\<in>set xs. \<not> p x, it''))"
    using checkAllFulfill_drained[OF assms, of "\<lambda>element. \<not> p element"] by blast
  then show ?thesis by (simp add: checkAnyFulfills_def)
qed


lemma checkAllFulfill_array_values:
  "\<exists>it''. checkAllFulfill (array_values xs) p = Some (Inr (\<forall>x\<in>set xs. p x, it''))"
  using checkAllFulfill_drained[OF drained_array_values] .

lemma checkAnyFulfills_array_values:
  "\<exists>it''. checkAnyFulfills (array_values xs) p = Some (Inr (\<exists>x\<in>set xs. p x, it''))"
proof -
  obtain it'' where "checkAllFulfill (array_values xs) (\<lambda>element. \<not> p element)
      = Some (Inr (\<forall>x\<in>set xs. \<not> p x, it''))"
    using checkAllFulfill_array_values[of xs "\<lambda>element. \<not> p element"] by blast
  then show ?thesis by (simp add: checkAnyFulfills_def)
qed

lemma zip_body_pulled:
  assumes "pull_all its = Some (Inr (rs, its'))"
  shows "zip_body its =
     (if (\<exists>r\<in>set rs. \<not> done_of r) \<and> \<not> (\<forall>r\<in>set rs. \<not> done_of r)
      then Some (Throws (Error ''some iterators are consumed before others''))
      else if (\<forall>r\<in>set rs. \<not> done_of r) then Some (Yields (map value_of rs) its')
      else Some Returns)"
proof -
  obtain a where a: "checkAnyFulfills (array_values rs) resultHasNext
      = Some (Inr (\<exists>r\<in>set rs. resultHasNext r, a))"
    using checkAnyFulfills_array_values[of rs resultHasNext] by blast
  obtain b where b: "checkAllFulfill (array_values rs) resultHasNext
      = Some (Inr (\<forall>r\<in>set rs. resultHasNext r, b))"
    using checkAllFulfill_array_values[of rs resultHasNext] by blast
  show ?thesis
    unfolding zip_body_def using assms a b by (simp add: resultHasNext_def)
qed

lemma next_of_zip_it:
  "next_of (zip_it its) = (case pull_all its of
       None \<Rightarrow> None
     | Some (Inl e) \<Rightarrow> Some (Inl e, generator zip_body Completed)
     | Some (Inr (rs, its')) \<Rightarrow>
         if (\<exists>r\<in>set rs. \<not> done_of r) \<and> (\<exists>r\<in>set rs. done_of r)
         then Some (Inl (Error ''some iterators are consumed before others''),
                    generator zip_body Completed)
         else if (\<forall>r\<in>set rs. \<not> done_of r)
         then Some (Inr (IteratorYieldResult (map value_of rs)), zip_it its')
         else Some (Inr IteratorReturnResult, generator zip_body Completed))"
proof (cases "pull_all its")
  case None
  then show ?thesis by (simp add: zip_it_def next_of_generator_Suspended zip_body_def)
next
  case (Some a)
  show ?thesis
  proof (cases a)
    case (Inl e)
    with Some show ?thesis by (simp add: zip_it_def next_of_generator_Suspended zip_body_def)
  next
    case (Inr b)
    obtain rs its' where "b = (rs, its')" by (cases b)
    with Some Inr have "pull_all its = Some (Inr (rs, its'))" by simp
    then show ?thesis
      by (auto simp: zip_it_def next_of_generator_Suspended zip_body_pulled)
  qed
qed

lemma zip_unequal:
  "pull_all its = Some (Inr (rs, its')) \<Longrightarrow> \<exists>r\<in>set rs. done_of r \<Longrightarrow> \<exists>r\<in>set rs. \<not> done_of r \<Longrightarrow>
   next_of (zip_it its) =
     Some (Inl (Error ''some iterators are consumed before others''), generator zip_body Completed)"
  by (auto simp: zip_it_def next_of_generator_Suspended zip_body_pulled)

lemma zip_all_done:
  "pull_all its = Some (Inr (rs, its')) \<Longrightarrow> rs \<noteq> [] \<Longrightarrow> \<forall>r\<in>set rs. done_of r \<Longrightarrow>
   next_of (zip_it its) = Some (Inr IteratorReturnResult, generator zip_body Completed)"
  by (cases rs) (auto simp: zip_it_def next_of_generator_Suspended zip_body_pulled)

lemma zip_all_values:
  "pull_all its = Some (Inr (map IteratorYieldResult vs, its')) \<Longrightarrow>
   next_of (zip_it its) = Some (Inr (IteratorYieldResult vs), zip_it its')"
  by (auto simp: zip_it_def next_of_generator_Suspended zip_body_pulled comp_def)

lemma zip_empty_next:
  "next_of (zip_it []) = Some (Inr (IteratorYieldResult []), zip_it [])"
  using zip_all_values[of "[]" "[]" "[]"] by simp

lemma pulls_zip_empty:
  "pulls n (zip_it []) = Some (Inr (replicate n (IteratorYieldResult []), zip_it []))"
  by (induction n) (simp_all add: zip_empty_next)

lemma spread_loop_zip_empty_aux:
  assumes "spread_loop it acc = Some y"
  shows "it \<noteq> zip_it []"
proof (rule spread_loop.raw_induct[OF _ assms], goal_cases)
  case (1 f iterator acc y)
  show ?case
  proof
    assume "iterator = zip_it []"
    with 1(2) have "f (zip_it []) (acc @ [[]]) = Some y"
      by (simp add: zip_empty_next)
    from 1(1)[OF this] show False by simp
  qed
qed

lemma spread_zip_empty: "spread (zip_it ([] :: 'a Iterator list)) = None"
proof (rule ccontr)
  assume "spread (zip_it ([] :: 'a Iterator list)) \<noteq> None"
  then obtain y where "spread_loop (zip_it ([] :: 'a Iterator list)) [] = Some y"
    by (auto simp: spread_def wrapWithIterable_def)
  from spread_loop_zip_empty_aux[OF this] show False by simp
qed



lemma next_of_PeekableIterator_iterator:
  "next_of s = Some (Inr r, s') \<Longrightarrow>
   next_of (PeekableIterator_iterator \<lparr>p_iterator = s, p_nextResult = r0\<rparr>) =
     Some (Inr r0, PeekableIterator_iterator \<lparr>p_iterator = s', p_nextResult = r\<rparr>)"
  by (simp add: PeekableIterator_next_def)

lemma pulls_Suc_step:
  "next_of it = Some (Inr r, it1) \<Longrightarrow> pulls n it1 = Some (Inr (rs, it')) \<Longrightarrow>
   pulls (Suc n) it = Some (Inr (r # rs, it'))"
  by simp

lemma pulls_PeekableIterator_iterator:
  "pulls n s = Some (Inr (rs, s')) \<Longrightarrow>
   pulls n (PeekableIterator_iterator \<lparr>p_iterator = s, p_nextResult = r0\<rparr>) =
     Some (Inr (butlast (r0 # rs),
                PeekableIterator_iterator \<lparr>p_iterator = s', p_nextResult = last (r0 # rs)\<rparr>))"
proof (induction n arbitrary: s r0 rs)
  case 0
  then show ?case by simp
next
  case (Suc n)
  then obtain r s1 rs' where *: "next_of s = Some (Inr r, s1)" "pulls n s1 = Some (Inr (rs', s'))"
      "rs = r # rs'"
    unfolding pulls_Suc_Inr by blast
  have "pulls (Suc n) (PeekableIterator_iterator \<lparr>p_iterator = s, p_nextResult = r0\<rparr>) =
      Some (Inr (r0 # butlast (r # rs'),
                 PeekableIterator_iterator \<lparr>p_iterator = s', p_nextResult = last (r # rs')\<rparr>))"
    by (rule pulls_Suc_step[OF next_of_PeekableIterator_iterator[OF *(1)] Suc.IH[OF *(2)]])
  then show ?case using *(3) by simp
qed

declare generator.simps [simp del]

lemma next_of_repeat_gen:
  "next_of (generator (repeat_body v) (Suspended (generator (range_body t 1 True) (Suspended (RangeLoop i)))))
   = (if i < t
      then Some (Inr (IteratorYieldResult v),
                 generator (repeat_body v) (Suspended (generator (range_body t 1 True) (Suspended (RangeLoop (i + 1))))))
      else Some (Inr (IteratorYieldResult v),
                 generator (repeat_body v) (Suspended (generator (range_body t 1 True) (Suspended RangeStopYielded)))))"
  by (simp add: next_of_generator_Suspended repeat_body_def continuePredicate_def)

lemma next_of_repeat_gen_stop:
  "next_of (generator (repeat_body v) (Suspended (generator (range_body t 1 True) (Suspended RangeStopYielded))))
   = Some (Inr IteratorReturnResult, generator (repeat_body v) Completed)"
  by (simp add: next_of_generator_Suspended repeat_body_def)

lemma drained_repeat_gen:
  "k = nat (t - i) \<Longrightarrow>
   drained (generator (repeat_body v) (Suspended (generator (range_body t 1 True) (Suspended (RangeLoop i)))))
     (replicate (Suc k) v) (generator (repeat_body v) Completed)"
proof (induction k arbitrary: i)
  case 0
  then have "\<not> i < t" by simp
  then show ?case
    by (simp add: drained_Cons drained_Nil next_of_repeat_gen next_of_repeat_gen_stop)
next
  case (Suc k)
  then have "i < t" "k = nat (t - (i + 1))" by simp_all
  with Suc.IH[of "i + 1"] have
    "drained (generator (repeat_body v) (Suspended (generator (range_body t 1 True)
        (Suspended (RangeLoop (i + 1)))))) (replicate (Suc k) v) (generator (repeat_body v) Completed)"
    by simp
  moreover have "replicate (Suc (Suc k)) v = v # replicate (Suc k) v" by simp
  ultimately show ?case
    using \<open>i < t\<close> unfolding \<open>replicate (Suc (Suc k)) v = v # replicate (Suc k) v\<close> drained_Cons
    by (simp add: next_of_repeat_gen del: replicate.simps)
qed

lemma spread_repeat:
  "spread (repeat v t) = Some (Inr (replicate (max 1 (nat t)) v, generator (repeat_body v) Completed))"
proof -
  have "Suc (nat (t - 1)) = max 1 (nat t)" by simp
  with drained_repeat_gen[of "nat (t - 1)" t 1 v] show ?thesis
    by (simp add: spread_iff_drained repeat_def range_it_def)
qed



lemma next_of_sum_gen:
  "next_of S = Some (Inr (IteratorYieldResult e), S') \<Longrightarrow>
   next_of (generator (smear_body sumCumulatively_functor) (Suspended (s, S))) =
     Some (Inr (IteratorYieldResult (s + e)),
           generator (smear_body sumCumulatively_functor) (Suspended (s + e, S')))"
  by (simp add: next_of_generator_Suspended smear_body_def wrapWithIterable_def sumCumulatively_functor_def Let_def)

lemma upt_1_Suc_Suc: "[1..<Suc (Suc n)] = 1 # map Suc [1..<Suc n]"
  by (simp add: upt_conv_Cons map_Suc_upt del: upt_Suc)

lemma drained_sum_gen:
  "drained S xs S' \<Longrightarrow>
   drained (generator (smear_body sumCumulatively_functor) (Suspended (s, S)))
     (map (\<lambda>n. s + sum_list (take n xs)) [1..<Suc (length xs)])
     (generator (smear_body sumCumulatively_functor) Completed)"
proof (induction xs arbitrary: S s)
  case Nil
  then show ?case
    by (simp add: drained_Nil next_of_generator_Suspended smear_body_def wrapWithIterable_def)
next
  case (Cons x xs)
  then obtain S1 where *: "next_of S = Some (Inr (IteratorYieldResult x), S1)" "drained S1 xs S'"
    by (auto simp: drained_Cons)
  have "map (\<lambda>n. s + sum_list (take n (x # xs))) [1..<Suc (length (x # xs))] =
        (s + x) # map (\<lambda>n. (s + x) + sum_list (take n xs)) [1..<Suc (length xs)]"
    unfolding length_Cons upt_1_Suc_Suc by (simp add: comp_def add.assoc del: upt_Suc)
  with Cons.IH[OF *(2), of "s + x"] next_of_sum_gen[OF *(1), of s] show ?case
    by (simp only: drained_Cons) blast
qed


section \<open>The claims\<close>

text \<open>
  C1, as amended. One pull of \<^verbatim>\<open>zip(iterators)\<close>, where pulling every iterator of the tuple
  once, from left to right, gives the results \<open>rs\<close>:
  \<^item> if some results are \<^verbatim>\<open>done\<close> and others are not, the pull throws
    \<^verbatim>\<open>"some iterators are consumed before others"\<close>;
  \<^item> if the tuple is not empty and all results are \<^verbatim>\<open>done\<close>, the pull returns \<^verbatim>\<open>done\<close>;
  \<^item> if all results carry a value, the pull yields the list of the values in order, and
    the generator goes on with the advanced iterators, so the same three cases apply to
    the next pull.
  Zipping \<open>[1,2,3]\<close> with \<open>[a,b,c]\<close> drains to exactly three pairs; zipping \<open>[1,2,3]\<close> with
  \<open>[a,b]\<close> yields two pairs and throws on the third pull. Heterogeneous tuples are
  lists over a sum type.
\<close>

theorem zip_step_policy:
  "(pull_all itsA = Some (Inr (rsA, itsA')) \<and> (\<exists>r\<in>set rsA. done_of r) \<and> (\<exists>r\<in>set rsA. \<not> done_of r) \<longrightarrow>
      next_of (zip_it itsA) =
        Some (Inl (Error ''some iterators are consumed before others''), generator zip_body Completed)) \<and>
   (pull_all itsB = Some (Inr (rsB, itsB')) \<and> rsB \<noteq> [] \<and> (\<forall>r\<in>set rsB. done_of r) \<longrightarrow>
      next_of (zip_it itsB) = Some (Inr IteratorReturnResult, generator zip_body Completed)) \<and>
   (pull_all itsC = Some (Inr (map IteratorYieldResult vs, itsC')) \<longrightarrow>
      next_of (zip_it itsC) = Some (Inr (IteratorYieldResult vs), zip_it itsC')) \<and>
   spread (zip_it [array_values [Inl 1, Inl 2, Inl (3::int)],
                   array_values [Inr CHR ''a'', Inr CHR ''b'', Inr CHR ''c'']])
     = Some (Inr ([[Inl 1, Inr CHR ''a''], [Inl 2, Inr CHR ''b''], [Inl 3, Inr CHR ''c'']],
                  generator zip_body Completed)) \<and>
   pulls 2 (zip_it [array_values [Inl 1, Inl 2, Inl (3::int)],
                    array_values [Inr CHR ''a'', Inr CHR ''b'']])
     = Some (Inr ([IteratorYieldResult [Inl 1, Inr CHR ''a''],
                   IteratorYieldResult [Inl 2, Inr CHR ''b'']],
                  zip_it [array_values [Inl 3], array_values []])) \<and>
   pulls 3 (zip_it [array_values [Inl 1, Inl 2, Inl (3::int)],
                    array_values [Inr CHR ''a'', Inr CHR ''b'']])
     = Some (Inl (Error ''some iterators are consumed before others''))"
proof -
  have ex1: "spread (zip_it [array_values [Inl 1, Inl 2, Inl (3::int)],
                   array_values [Inr CHR ''a'', Inr CHR ''b'', Inr CHR ''c'']])
     = Some (Inr ([[Inl 1, Inr CHR ''a''], [Inl 2, Inr CHR ''b''], [Inl 3, Inr CHR ''c'']],
                  generator zip_body Completed))"
    by (simp add: spread_iff_drained drained_def next_of_zip_it)
  have ex2: "pulls 2 (zip_it [array_values [Inl 1, Inl 2, Inl (3::int)],
                    array_values [Inr CHR ''a'', Inr CHR ''b'']])
     = Some (Inr ([IteratorYieldResult [Inl 1, Inr CHR ''a''],
                   IteratorYieldResult [Inl 2, Inr CHR ''b'']],
                  zip_it [array_values [Inl 3], array_values []]))"
    by (simp add: numeral_2_eq_2 next_of_zip_it)
  have ex3: "pulls 3 (zip_it [array_values [Inl 1, Inl 2, Inl (3::int)],
                    array_values [Inr CHR ''a'', Inr CHR ''b'']])
     = Some (Inl (Error ''some iterators are consumed before others''))"
    by (simp add: numeral_3_eq_3 next_of_zip_it)
  show ?thesis
    using zip_unequal[of itsA rsA itsA'] zip_all_done[of itsB rsB itsB']
      zip_all_values[of itsC vs itsC'] ex1 ex2 ex3
    by blast
qed

theorem zip_step_policy_witness:
  "pull_all [array_values [Inl (3::int)], array_values ([] :: (int + char) list)]
     = Some (Inr ([IteratorYieldResult (Inl 3), IteratorReturnResult],
                  [array_values [], array_values []])) \<and>
   next_of (zip_it [array_values [Inl (3::int)], array_values ([] :: (int + char) list)])
     = Some (Inl (Error ''some iterators are consumed before others''),
             generator zip_body Completed) \<and>
   pull_all [array_values ([] :: (int + char) list), array_values []]
     = Some (Inr ([IteratorReturnResult, IteratorReturnResult],
                  [array_values [], array_values []])) \<and>
   next_of (zip_it [array_values ([] :: (int + char) list), array_values []])
     = Some (Inr IteratorReturnResult, generator zip_body Completed) \<and>
   pull_all [array_values [Inl (1::int)], array_values [Inr CHR ''a'']]
     = Some (Inr ([IteratorYieldResult (Inl 1), IteratorYieldResult (Inr CHR ''a'')],
                  [array_values [], array_values []])) \<and>
   next_of (zip_it [array_values [Inl (1::int)], array_values [Inr CHR ''a'']])
     = Some (Inr (IteratorYieldResult [Inl 1, Inr CHR ''a'']),
             zip_it [array_values [], array_values []])"
  using zip_step_policy[where
      itsA = "[array_values [Inl (3::int)], array_values ([] :: (int + char) list)]" and
      rsA = "[IteratorYieldResult (Inl 3), IteratorReturnResult]" and
      itsA' = "[array_values [], array_values []]" and
      itsB = "[array_values ([] :: (int + char) list), array_values []]" and
      rsB = "[IteratorReturnResult, IteratorReturnResult]" and
      itsB' = "[array_values [], array_values []]" and
      itsC = "[array_values [Inl (1::int)], array_values [Inr CHR ''a'']]" and
      vs = "[Inl 1, Inr CHR ''a'']" and
      itsC' = "[array_values [], array_values []]"]
  by simp

text \<open>
  C1 as stated fails for the empty tuple: all of its (zero) results are \<^verbatim>\<open>done\<close>, yet
  the pull yields the empty tuple instead of ending.
\<close>

theorem zip_all_exhausted_counterexample:
  "pull_all ([] :: int Iterator list) = Some (Inr ([], [])) \<and>
   list_all done_of ([] :: int IteratorResult list) \<and>
   next_of (zip_it ([] :: int Iterator list)) \<noteq>
     Some (Inr IteratorReturnResult, generator zip_body Completed)"
  by (simp add: zip_empty_next)

text \<open>
  C2, as amended. \<^verbatim>\<open>reduce\<close> over \<open>[1,2,3,4,5]\<close> from \<open>0\<close> with the functor that calls the
  callback and returns \<open>acc\<close> when \<open>e > 3\<close>, and returns \<open>acc + e\<close> otherwise, returns \<open>6\<close>
  and leaves the iterator with \<open>5\<close> as its only element: \<open>5\<close> is never pulled, while \<open>4\<close>
  is pulled and handed to the functor, which breaks on it.
\<close>

theorem reduce_break_example:
  "reduce (array_values [1, 2, 3, 4, 5 :: int])
     (\<lambda>acc e brk flag. if e > 3 then (acc, brk flag) else (acc + e, flag)) 0
   = Some (Inr (6, array_values [5]))"
  by (simp add: reduce_def applyOnEachOf_def wrapWithIterable_def applyOnEachOf_loop.simps
      breakAfterIteration_def)

text \<open>
  C2 as stated fails: had neither \<open>4\<close> nor \<open>5\<close> been pulled, the iterator would be left
  with both.
\<close>

theorem reduce_break_example_counterexample:
  "reduce (array_values [1, 2, 3, 4, 5 :: int])
     (\<lambda>acc e brk flag. if e > 3 then (acc, brk flag) else (acc + e, flag)) 0
   \<noteq> Some (Inr (6, array_values [4, 5]))"
proof -
  have "array_values [5::int] \<noteq> array_values [4, 5]"
  proof
    assume "array_values [5::int] = array_values [4, 5]"
    then have "next_of (array_values [5::int]) = next_of (array_values [4, 5])" by simp
    then show False by simp
  qed
  then show ?thesis
    by (simp add: reduce_def applyOnEachOf_def wrapWithIterable_def applyOnEachOf_loop.simps
        breakAfterIteration_def)
qed

text \<open>
  C3, on the code. Draining \<^verbatim>\<open>repeat(v, times)\<close> gives \<open>v\<close> \<open>max 1 times\<close> times: for
  \<open>times = 0\<close> the range \<^verbatim>\<open>range(1, 0, 1, true)\<close> skips its loop and still yields its stop,
  so \<open>v\<close> is yielded once, not zero times.
\<close>

theorem repeat_yields_at_least_once:
  "spread (repeat v 0) = Some (Inr ([v], generator (repeat_body v) Completed)) \<and>
   spread (repeat v t) =
     Some (Inr (replicate (max 1 (nat t)) v, generator (repeat_body v) Completed))"
  by (simp add: spread_repeat)

text \<open>
  C4. For an iterator \<open>S\<close> whose draining ends with the array \<open>xs\<close>, \<^verbatim>\<open>checkAllFulfill(S, p)\<close>
  returns whether every element of \<open>xs\<close> satisfies \<open>p\<close>. For an iterator \<open>E\<close> that is done
  at once it returns true. If an iterator \<open>T\<close> yields \<open>ys\<close>, all satisfying \<open>p\<close>, and then
  \<open>y\<close>, which does not, it returns false and leaves \<open>T\<close> as it is right after \<open>y\<close> was
  pulled: nothing after \<open>y\<close> is pulled.
\<close>

theorem checkAllFulfill_correct:
  "(spread S = Some (Inr (xs, S')) \<longrightarrow>
      (\<exists>S''. checkAllFulfill S p = Some (Inr (\<forall>x\<in>set xs. p x, S'')))) \<and>
   (next_of E = Some (Inr IteratorReturnResult, E') \<longrightarrow>
      checkAllFulfill E p = Some (Inr (True, E'))) \<and>
   (pulls (Suc (length ys)) T = Some (Inr (map IteratorYieldResult (ys @ [y]), T')) \<and>
    (\<forall>x\<in>set ys. p x) \<and> \<not> p y \<longrightarrow>
      checkAllFulfill T p = Some (Inr (False, T')))"
  using checkAllFulfill_drained[of S xs S' p] checkAllFulfill_all[of E "[]" E' p]
    checkAllFulfill_first_failure[of ys T y T' p]
  by (simp add: spread_iff_drained drained_Nil)

theorem checkAllFulfill_correct_witness:
  "spread (array_values [2, 4, 5, 6 :: int]) = Some (Inr ([2, 4, 5, 6], array_values [])) \<and>
   checkAllFulfill (array_values [2, 4, 5, 6 :: int]) even = Some (Inr (False, array_values [6])) \<and>
   next_of (array_values ([] :: int list)) = Some (Inr IteratorReturnResult, array_values []) \<and>
   checkAllFulfill (array_values ([] :: int list)) even = Some (Inr (True, array_values [])) \<and>
   pulls 3 (array_values [2, 4, 5, 6 :: int])
     = Some (Inr ([IteratorYieldResult 2, IteratorYieldResult 4, IteratorYieldResult 5],
                  array_values [6]))"
  using checkAllFulfill_correct[where S = "array_values [2, 4, 5, 6 :: int]" and
      xs = "[2, 4, 5, 6]" and S' = "array_values []" and p = even and
      E = "array_values []" and E' = "array_values []" and
      T = "array_values [2, 4, 5, 6 :: int]" and ys = "[2, 4]" and y = 5 and
      T' = "array_values [6]"]
  by (simp add: spread_array_values numeral_3_eq_3)

text \<open>
  C5. For an iterator \<open>S\<close> whose draining ends with the array \<open>xs\<close>, \<^verbatim>\<open>checkAnyFulfills(S, p)\<close>
  returns whether some element of \<open>xs\<close> satisfies \<open>p\<close>. For an iterator \<open>E\<close> that is done at
  once it returns false. For every iterator \<open>T\<close> it is \<^verbatim>\<open>checkAllFulfill\<close> with the negated
  predicate, with the returned boolean negated and the same effect on \<open>T\<close>.
\<close>

theorem checkAnyFulfills_correct:
  "(spread S = Some (Inr (xs, S')) \<longrightarrow>
      (\<exists>S''. checkAnyFulfills S p = Some (Inr (\<exists>x\<in>set xs. p x, S'')))) \<and>
   (next_of E = Some (Inr IteratorReturnResult, E') \<longrightarrow>
      checkAnyFulfills E p = Some (Inr (False, E'))) \<and>
   checkAnyFulfills T p =
     map_option (map_sum id (map_prod Not id)) (checkAllFulfill T (\<lambda>e. \<not> p e))"
proof -
  have a: "spread S = Some (Inr (xs, S')) \<longrightarrow>
      (\<exists>S''. checkAnyFulfills S p = Some (Inr (\<exists>x\<in>set xs. p x, S'')))"
    using checkAnyFulfills_drained[of S xs S' p] by (simp add: spread_iff_drained)
  have b: "next_of E = Some (Inr IteratorReturnResult, E') \<longrightarrow>
      checkAnyFulfills E p = Some (Inr (False, E'))"
    using checkAllFulfill_all[of E "[]" E' "\<lambda>e. \<not> p e"]
    by (simp add: drained_Nil checkAnyFulfills_def)
  have c: "checkAnyFulfills T p =
     map_option (map_sum id (map_prod Not id)) (checkAllFulfill T (\<lambda>e. \<not> p e))"
    by (simp add: checkAnyFulfills_def split: option.splits sum.splits prod.splits)
  from a b c show ?thesis by blast
qed

theorem checkAnyFulfills_correct_witness:
  "spread (array_values [1, 2, 3 :: int]) = Some (Inr ([1, 2, 3], array_values [])) \<and>
   checkAnyFulfills (array_values [1, 2, 3 :: int]) (\<lambda>e. e = 2) = Some (Inr (True, array_values [3])) \<and>
   next_of (array_values ([] :: int list)) = Some (Inr IteratorReturnResult, array_values []) \<and>
   checkAnyFulfills (array_values ([] :: int list)) (\<lambda>e. e = 2) = Some (Inr (False, array_values []))"
  using checkAnyFulfills_correct[where S = "array_values [1, 2, 3 :: int]" and
      xs = "[1, 2, 3]" and S' = "array_values []" and p = "\<lambda>e. e = 2" and
      E = "array_values []" and E' = "array_values []" and T = "array_values [1, 2, 3 :: int]"]
    checkAllFulfill_first_failure[of "[1 :: int]" "array_values [1, 2, 3]" 2 "array_values [3]" "\<lambda>e. e \<noteq> 2"]
  by (simp add: spread_array_values)

text \<open>
  C6. For every finite sequence \<open>S\<close>, draining \<^verbatim>\<open>reverse(reverse(S.values()))\<close> gives \<open>S\<close>
  in its original order, and leaves the outer generator completed.
\<close>

theorem reverse_involution:
  "spread (reverse (reverse (array_values S))) = Some (Inr (S, generator reverse_body Completed))"
  using drained_reverse[OF drained_reverse[OF drained_array_values[of S]]]
  by (simp add: spread_iff_drained)

text \<open>
  C7. For every iterator \<open>S\<close> whose draining ends with the array \<open>xs\<close>, and every functor
  \<open>f\<close>, draining \<^verbatim>\<open>map(S, f)\<close> gives \<open>f\<close> applied to each element of \<open>xs\<close>, in order.
\<close>

theorem spread_map_commute:
  "spread S = Some (Inr (xs, S')) \<Longrightarrow>
   spread (map_it S f) = Some (Inr (map f xs, generator (map_body f) Completed))"
  by (simp add: spread_iff_drained map_it_def drained_map_it)

theorem spread_map_commute_witness:
  "spread (array_values [1, 2, 3 :: int]) = Some (Inr ([1, 2, 3], array_values [])) \<and>
   spread (map_it (array_values [1, 2, 3 :: int]) (\<lambda>e. e * 2)) =
     Some (Inr ([2, 4, 6], generator (map_body (\<lambda>e. e * 2)) Completed))"
proof -
  have h: "spread (array_values [1, 2, 3 :: int]) = Some (Inr ([1, 2, 3], array_values []))"
    by (rule spread_array_values)
  show ?thesis using h spread_map_commute[OF h, of "\<lambda>e. e * 2"] by simp
qed

text \<open>
  C8. Draining \<^verbatim>\<open>sumCumulatively\<close> of the array iterator of \<open>[1,2,3,4]\<close> gives \<open>[1,3,6,10]\<close>.
  For an iterator \<open>S\<close> whose draining ends with the array \<open>xs\<close>, draining
  \<^verbatim>\<open>sumCumulatively(S)\<close> gives, at position \<open>n\<close> (from 1), the sum of the first \<open>n\<close>
  elements of \<open>xs\<close>. The generator starts with the carried value \<open>0\<close>, and a pull that
  receives \<open>e\<close> from the source while carrying \<open>s\<close> yields \<open>s + e\<close> and carries \<open>s + e\<close> on.
\<close>

theorem sumCumulatively_running_total:
  "spread (sumCumulatively (array_values [1, 2, 3, 4]))
     = Some (Inr ([1, 3, 6, 10], generator (smear_body sumCumulatively_functor) Completed)) \<and>
   (spread S = Some (Inr (xs, S')) \<longrightarrow>
      spread (sumCumulatively S) =
        Some (Inr (map (\<lambda>n. sum_list (take n xs)) [1..<Suc (length xs)],
                   generator (smear_body sumCumulatively_functor) Completed))) \<and>
   sumCumulatively T = generator (smear_body sumCumulatively_functor) (Suspended (0, T)) \<and>
   (next_of U = Some (Inr (IteratorYieldResult e), U') \<longrightarrow>
      next_of (generator (smear_body sumCumulatively_functor) (Suspended (s, U))) =
        Some (Inr (IteratorYieldResult (s + e)),
              generator (smear_body sumCumulatively_functor) (Suspended (s + e, U'))))"
proof -
  have gen: "spread R = Some (Inr (zs, R')) \<longrightarrow>
      spread (sumCumulatively R) =
        Some (Inr (map (\<lambda>n. sum_list (take n zs)) [1..<Suc (length zs)],
                   generator (smear_body sumCumulatively_functor) Completed))" for R zs R'
    using drained_sum_gen[of R zs R' 0]
    by (simp add: spread_iff_drained sumCumulatively_def smear_def)
  have "[1..<5] = [1, 2, 3, 4 :: nat]"
    by (simp add: upt_conv_Cons)
  then have ex: "spread (sumCumulatively (array_values [1, 2, 3, 4]))
     = Some (Inr ([1, 3, 6, 10], generator (smear_body sumCumulatively_functor) Completed))"
    using gen[of "array_values [1, 2, 3, 4]" "[1, 2, 3, 4]" "array_values []"]
    by (simp add: spread_array_values)
  have seed: "sumCumulatively T = generator (smear_body sumCumulatively_functor) (Suspended (0, T))"
    by (simp add: sumCumulatively_def smear_def)
  from ex gen[of S xs S'] seed next_of_sum_gen[of U e U' s] show ?thesis by blast
qed

theorem sumCumulatively_running_total_witness:
  "spread (array_values [5, 7 :: int]) = Some (Inr ([5, 7], array_values [])) \<and>
   spread (sumCumulatively (array_values [5, 7]))
     = Some (Inr ([5, 12], generator (smear_body sumCumulatively_functor) Completed)) \<and>
   next_of (array_values [7 :: int]) = Some (Inr (IteratorYieldResult 7), array_values []) \<and>
   next_of (generator (smear_body sumCumulatively_functor) (Suspended (5, array_values [7])))
     = Some (Inr (IteratorYieldResult 12),
             generator (smear_body sumCumulatively_functor) (Suspended (12, array_values [])))"
proof -
  have h1: "spread (array_values [5, 7 :: int]) = Some (Inr ([5, 7], array_values []))"
    by (rule spread_array_values)
  have h2: "next_of (array_values [7 :: int]) = Some (Inr (IteratorYieldResult 7), array_values [])"
    by simp
  have "[1..<3] = [1, 2 :: nat]"
    by (simp add: upt_conv_Cons)
  then have l: "map (\<lambda>n. sum_list (take n [5, 7 :: int])) [1..<Suc (length [5, 7 :: int])] = [5, 12]"
    by simp
  show ?thesis
    using sumCumulatively_running_total[where S = "array_values [5, 7]" and xs = "[5, 7]" and
        S' = "array_values []" and T = "array_values []" and
        U = "array_values [7]" and e = 7 and U' = "array_values []" and s = 5]
      h1 h2
    unfolding l by simp
qed

text \<open>
  C9. Where the pulls of the source return results: the constructor pulls the source
  once and buffers that result; \<^verbatim>\<open>peek()\<close> returns the buffered result and changes
  nothing, so peeking again returns the same; \<^verbatim>\<open>next()\<close> returns the result that
  \<^verbatim>\<open>peek()\<close> shows, pulls the source once and buffers that result. Hence, if the first
  \<open>n + 1\<close> pulls of a source return \<open>rs\<close> followed by \<open>r\<close>, the first \<open>n\<close> \<^verbatim>\<open>next()\<close> calls
  on its wrapper return \<open>rs\<close>, after which the wrapper holds \<open>r\<close> and the source is where
  its \<open>n + 1\<close> pulls left it.
\<close>

theorem PeekableIterator_lookahead:
  "(next_of src = Some (Inr r, src') \<longrightarrow>
      PeekableIterator_new src = Some (Inr \<lparr>p_iterator = src', p_nextResult = r\<rparr>)) \<and>
   peek this = (p_nextResult this, this) \<and>
   peek (snd (peek this)) = peek this \<and>
   (next_of (p_iterator that) = Some (Inr q, it') \<longrightarrow>
      PeekableIterator_next that =
        Some (Inr (fst (peek that)), \<lparr>p_iterator = it', p_nextResult = q\<rparr>)) \<and>
   (pulls (Suc n) source = Some (Inr (rs @ [lookahead], source')) \<longrightarrow>
      (\<exists>p. PeekableIterator_new source = Some (Inr p) \<and>
           pulls n (PeekableIterator_iterator p) =
             Some (Inr (rs, PeekableIterator_iterator
                              \<lparr>p_iterator = source', p_nextResult = lookahead\<rparr>))))"
proof -
  have a: "next_of src = Some (Inr r, src') \<longrightarrow>
      PeekableIterator_new src = Some (Inr \<lparr>p_iterator = src', p_nextResult = r\<rparr>)"
    by (simp add: PeekableIterator_new_def)
  have b: "peek this = (p_nextResult this, this)" "peek (snd (peek this)) = peek this"
    by (simp_all add: peek_def)
  have c: "next_of (p_iterator that) = Some (Inr q, it') \<longrightarrow>
      PeekableIterator_next that =
        Some (Inr (fst (peek that)), \<lparr>p_iterator = it', p_nextResult = q\<rparr>)"
    by (simp add: PeekableIterator_next_def peek_def)
  have d: "pulls (Suc n) source = Some (Inr (rs @ [lookahead], source')) \<longrightarrow>
      (\<exists>p. PeekableIterator_new source = Some (Inr p) \<and>
           pulls n (PeekableIterator_iterator p) =
             Some (Inr (rs, PeekableIterator_iterator
                              \<lparr>p_iterator = source', p_nextResult = lookahead\<rparr>)))"
  proof
    assume "pulls (Suc n) source = Some (Inr (rs @ [lookahead], source'))"
    then obtain r1 s1 rs1 where *: "next_of source = Some (Inr r1, s1)"
        "pulls n s1 = Some (Inr (rs1, source'))" "rs @ [lookahead] = r1 # rs1"
      unfolding pulls_Suc_Inr by blast
    have "butlast (r1 # rs1) = rs" "last (r1 # rs1) = lookahead"
      using *(3)[symmetric] by simp_all
    with pulls_PeekableIterator_iterator[OF *(2), of r1] *(1)
    show "\<exists>p. PeekableIterator_new source = Some (Inr p) \<and>
           pulls n (PeekableIterator_iterator p) =
             Some (Inr (rs, PeekableIterator_iterator
                              \<lparr>p_iterator = source', p_nextResult = lookahead\<rparr>))"
      by (simp add: PeekableIterator_new_def)
  qed
  from a b c d show ?thesis by blast
qed

theorem PeekableIterator_lookahead_witness:
  "next_of (array_values [1, 2, 3 :: int]) = Some (Inr (IteratorYieldResult 1), array_values [2, 3]) \<and>
   PeekableIterator_new (array_values [1, 2, 3 :: int])
     = Some (Inr \<lparr>p_iterator = array_values [2, 3], p_nextResult = IteratorYieldResult 1\<rparr>) \<and>
   PeekableIterator_next \<lparr>p_iterator = array_values [2, 3 :: int], p_nextResult = IteratorYieldResult 1\<rparr>
     = Some (Inr (IteratorYieldResult 1),
             \<lparr>p_iterator = array_values [3], p_nextResult = IteratorYieldResult 2\<rparr>) \<and>
   pulls 3 (array_values [1, 2, 3 :: int])
     = Some (Inr ([IteratorYieldResult 1, IteratorYieldResult 2, IteratorYieldResult 3],
                  array_values [])) \<and>
   pulls 2 (PeekableIterator_iterator
              \<lparr>p_iterator = array_values [2, 3 :: int], p_nextResult = IteratorYieldResult 1\<rparr>)
     = Some (Inr ([IteratorYieldResult 1, IteratorYieldResult 2],
                  PeekableIterator_iterator
                    \<lparr>p_iterator = array_values [], p_nextResult = IteratorYieldResult 3\<rparr>))"
proof -
  note t = PeekableIterator_lookahead[where src = "array_values [1, 2, 3 :: int]" and
      r = "IteratorYieldResult 1" and src' = "array_values [2, 3]" and
      that = "\<lparr>p_iterator = array_values [2, 3 :: int], p_nextResult = IteratorYieldResult 1\<rparr>" and
      q = "IteratorYieldResult 2" and it' = "array_values [3]" and
      n = 2 and source = "array_values [1, 2, 3 :: int]" and
      rs = "[IteratorYieldResult 1, IteratorYieldResult 2]" and
      lookahead = "IteratorYieldResult 3" and source' = "array_values []"]
  have h1: "next_of (array_values [1, 2, 3 :: int])
      = Some (Inr (IteratorYieldResult 1), array_values [2, 3])"
    by simp
  have h2: "next_of (p_iterator \<lparr>p_iterator = array_values [2, 3 :: int],
        p_nextResult = IteratorYieldResult 1\<rparr>) = Some (Inr (IteratorYieldResult 2), array_values [3])"
    by simp
  have h3: "pulls (Suc 2) (array_values [1, 2, 3 :: int])
      = Some (Inr ([IteratorYieldResult 1, IteratorYieldResult 2] @ [IteratorYieldResult 3],
                   array_values []))"
    by (simp add: numeral_2_eq_2)
  from t h1 have c1: "PeekableIterator_new (array_values [1, 2, 3 :: int])
     = Some (Inr \<lparr>p_iterator = array_values [2, 3], p_nextResult = IteratorYieldResult 1\<rparr>)"
    by blast
  from t h2 have c2: "PeekableIterator_next
       \<lparr>p_iterator = array_values [2, 3 :: int], p_nextResult = IteratorYieldResult 1\<rparr>
     = Some (Inr (fst (peek \<lparr>p_iterator = array_values [2, 3 :: int],
                              p_nextResult = IteratorYieldResult 1\<rparr>)),
             \<lparr>p_iterator = array_values [3], p_nextResult = IteratorYieldResult 2\<rparr>)"
    by blast
  from t h3 obtain p where p: "PeekableIterator_new (array_values [1, 2, 3 :: int]) = Some (Inr p)"
      "pulls 2 (PeekableIterator_iterator p)
         = Some (Inr ([IteratorYieldResult 1, IteratorYieldResult 2],
                      PeekableIterator_iterator
                        \<lparr>p_iterator = array_values [], p_nextResult = IteratorYieldResult 3\<rparr>))"
    by blast
  from p(1) c1 have "p = \<lparr>p_iterator = array_values [2, 3], p_nextResult = IteratorYieldResult 1\<rparr>"
    by simp
  with p(2) have c3: "pulls 2 (PeekableIterator_iterator
              \<lparr>p_iterator = array_values [2, 3 :: int], p_nextResult = IteratorYieldResult 1\<rparr>)
     = Some (Inr ([IteratorYieldResult 1, IteratorYieldResult 2],
                  PeekableIterator_iterator
                    \<lparr>p_iterator = array_values [], p_nextResult = IteratorYieldResult 3\<rparr>))"
    by simp
  have h3': "pulls 3 (array_values [1, 2, 3 :: int])
     = Some (Inr ([IteratorYieldResult 1, IteratorYieldResult 2, IteratorYieldResult 3],
                  array_values []))"
    by (simp add: numeral_3_eq_3)
  from c2 have c2': "PeekableIterator_next
       \<lparr>p_iterator = array_values [2, 3 :: int], p_nextResult = IteratorYieldResult 1\<rparr>
     = Some (Inr (IteratorYieldResult 1),
             \<lparr>p_iterator = array_values [3], p_nextResult = IteratorYieldResult 2\<rparr>)"
    by (simp add: peek_def)
  from h1 c1 c2' h3' c3 show ?thesis by blast
qed

text \<open>
  C10. For the empty tuple, the all-have-next check of \<^verbatim>\<open>zip\<close> runs over no results and
  is true, so every pull of \<^verbatim>\<open>zip([])\<close> yields the empty tuple and leaves the generator as it
  was: \<open>n\<close> pulls return \<open>n\<close> empty tuples, for every \<open>n\<close>, and draining \<^verbatim>\<open>zip([])\<close> with
  \<^verbatim>\<open>spread\<close> does not return.
\<close>

theorem zip_empty_tuple_never_ends:
  "checkAllFulfill (array_values []) resultHasNext = Some (Inr (True, array_values [])) \<and>
   pulls n (zip_it []) = Some (Inr (replicate n (IteratorYieldResult []), zip_it [])) \<and>
   spread (zip_it []) = None"
  using checkAllFulfill_all[of "array_values []" "[]" "array_values []" resultHasNext]
  by (simp add: pulls_zip_empty spread_zip_empty drained_Nil)

end
